theory Spec2Isabelle
  imports Main "HOL-Library.Sublist"
begin

section \<open>Syntax trees handed over by go/parser\<close>

text \<open>
  The part of \<^verbatim>\<open>go/ast\<close> that \<^verbatim>\<open>parser.go\<close> inspects. Go strings are byte
  sequences, and so is \<^typ>\<open>string\<close>. A qualified type name is built by go/parser as a
  \<^verbatim>\<open>SelectorExpr\<close> whose \<^verbatim>\<open>X\<close> is an identifier, and \<^verbatim>\<open>%v\<close> prints an identifier
  as its name, so \<open>SelectorExpr\<close> keeps the two names. The shapes that \<^verbatim>\<open>mapFieldType\<close>
  has no case for are kept apart as far as they occur in type position.
  A field keeps the names it declares, the text of its doc comment (\<^verbatim>\<open>Doc.Text()\<close>, empty
  without a comment), the raw tag literal (\<open>None\<close> for a nil \<^verbatim>\<open>Tag\<close>) and its type.
\<close>

datatype expr =
    Ident string
  | StarExpr expr
  | SelectorExpr string string
  | ArrayType "expr option" expr
  | StructType "field list"
  | MapType expr expr
  | ChanType expr
  | FuncType
  | InterfaceType
  | ParenExpr expr
  | OtherExpr
and field =
    Field (fNames: "string list") (fDoc: string) (fTag: "string option") (fType: expr)

record TypeSpec =
  tsName :: string
  tsType :: expr

text \<open>\<open>Recv\<close> is \<open>None\<close> for a nil receiver list, else the types of its entries.\<close>

record FuncDecl =
  Recv :: "expr list option"
  fdName :: string
  fdDoc :: string

datatype decl = TypeSpecD TypeSpec | FuncDeclD FuncDecl | OtherD

text \<open>A node with the nodes below it, in the order \<^verbatim>\<open>ast.Inspect\<close> visits them.\<close>

datatype node = Node decl "node list"

section \<open>Run-time panics\<close>

datatype panic =
    NilMapAssign
  | NilDereference
  | IndexOutOfRange
  | TypeAssertion
  | UnmappedType expr

type_synonym error = string

section \<open>The functions of package strings that the parser calls\<close>

definition HasSuffix :: "string \<Rightarrow> string \<Rightarrow> bool" where
  "HasSuffix s suf = (length suf \<le> length s \<and> drop (length s - length suf) s = suf)"

text \<open>
  \<^verbatim>\<open>strings.Replace(s, old, "", -1)\<close>: every occurrence of \<open>old\<close>, found from left to
  right without overlap, is dropped. With an empty \<open>old\<close> the empty string is put between
  the characters, which gives \<open>s\<close> back.
\<close>

function Replace :: "string \<Rightarrow> string \<Rightarrow> string" where
  "Replace [] old = []"
| "Replace (c # cs) old =
     (if old \<noteq> [] \<and> prefix old (c # cs) then Replace (drop (length old) (c # cs)) old
      else c # Replace cs old)"
  by pat_completeness auto
termination
  by (relation "measure (\<lambda>(s, old). length s)") (auto simp: neq_Nil_conv)

text \<open>
  \<^verbatim>\<open>string(b)\<close> for a byte \<open>b\<close> is the UTF-8 encoding of the code point with that number;
  \<^verbatim>\<open>strings.ToUpper\<close> of it is the encoding of the upper-case code point. The upper-case
  mapping is the one of package unicode on the code points below 256, the only ones a
  byte gives.
\<close>

definition utf8 :: "nat \<Rightarrow> string" where
  "utf8 r =
     (if r < 128 then [char_of r]
      else if r < 2048 then [char_of (192 + r div 64), char_of (128 + r mod 64)]
      else [char_of (224 + r div 4096), char_of (128 + (r div 64) mod 64), char_of (128 + r mod 64)])"

definition unicode_ToUpper :: "nat \<Rightarrow> nat" where
  "unicode_ToUpper r =
     (if 97 \<le> r \<and> r \<le> 122 then r - 32
      else if r = 181 then 924
      else if (224 \<le> r \<and> r \<le> 246) \<or> (248 \<le> r \<and> r \<le> 254) then r - 32
      else if r = 255 then 376
      else r)"

definition string_of_byte :: "char \<Rightarrow> string" where
  "string_of_byte b = utf8 (of_char b)"

definition ToUpper_byte :: "char \<Rightarrow> string" where
  "ToUpper_byte b = utf8 (unicode_ToUpper (of_char b))"

section \<open>Tag extractor\<close>

text \<open>
  The pattern \<^verbatim>\<open>json:"(\d|\w+)(,omitempty)?"\<close>. \<^verbatim>\<open>\d\<close> and \<^verbatim>\<open>\w\<close> are the ASCII classes.
  \<open>group1_candidates\<close> lists what the first group can take at the head of a string in the
  order the leftmost-first matcher prefers: the single digit of the first alternative,
  then the runs of word characters from the longest down. \<open>match_here\<close> is a match that
  starts at the head of the string, \<open>FindStringSubmatch\<close> tries the start positions from
  the left and returns the whole match and the two groups.
\<close>

definition is_digit :: "char \<Rightarrow> bool" where
  "is_digit c = (let n = of_char c :: nat in 48 \<le> n \<and> n \<le> 57)"

definition is_word :: "char \<Rightarrow> bool" where
  "is_word c =
     (let n = of_char c :: nat
      in (48 \<le> n \<and> n \<le> 57) \<or> (65 \<le> n \<and> n \<le> 90) \<or> n = 95 \<or> (97 \<le> n \<and> n \<le> 122))"

definition group1_candidates :: "string \<Rightarrow> string list" where
  "group1_candidates r =
     (case r of [] \<Rightarrow> [] | c # _ \<Rightarrow> if is_digit c then [[c]] else [])
     @ rev (tl (prefixes (takeWhile is_word r)))"

definition group2 :: "string \<Rightarrow> (string \<times> string) option" where
  \<open>group2 r =
     (if prefix '',omitempty"'' r then Some ('',omitempty'', '',omitempty"'')
      else if prefix ''"'' r then Some ([], ''"'')
      else None)\<close>

fun first_match :: "string \<Rightarrow> string list \<Rightarrow> string list option" where
  "first_match r [] = None"
| "first_match r (g # gs) =
     (case group2 (drop (length g) r) of
        Some (g2, tail) \<Rightarrow> Some [''json:'' @ [CHR 0x22] @ g @ tail, g, g2]
      | None \<Rightarrow> first_match r gs)"

definition match_here :: "string \<Rightarrow> string list option" where
  "match_here s =
     (if prefix (''json:'' @ [CHR 0x22]) s
      then first_match (drop 6 s) (group1_candidates (drop 6 s))
      else None)"

fun FindStringSubmatch :: "string \<Rightarrow> string list option" where
  "FindStringSubmatch [] = match_here []"
| "FindStringSubmatch (c # cs) =
     (case match_here (c # cs) of
        Some m \<Rightarrow> Some m
      | None \<Rightarrow> FindStringSubmatch cs)"

definition parseTag :: "string \<Rightarrow> panic + string" where
  "parseTag tag =
     (case FindStringSubmatch tag of
        None \<Rightarrow> Inl IndexOutOfRange
      | Some m \<Rightarrow> (case m of _ # g # _ \<Rightarrow> Inr g | _ \<Rightarrow> Inl IndexOutOfRange))"

section \<open>Type mapper\<close>

fun mapFieldType :: "expr \<Rightarrow> panic + string" where
  "mapFieldType (Ident n) = Inr n"
| "mapFieldType (StarExpr x) = (case x of Ident n \<Rightarrow> Inr n | _ \<Rightarrow> Inr ''Object'')"
| "mapFieldType (SelectorExpr X Sel) =
     (let name = X @ ''.'' @ Sel
      in if name = ''globalid.ID'' then Inr ''UUID''
         else if name = ''model.ReactionType'' then Inr ''string''
         else if name = ''model.CardsResponse'' \<or> name = ''model.CardResponse''
                 \<or> name = ''model.Draft'' then Inr ''Object''
         else Inr name)"
| "mapFieldType (ArrayType l e) = Inr ''Array''"
| "mapFieldType e = Inl (UnmappedType e)"

section \<open>Entity model\<close>

record Parameter =
  pField :: string
  pType :: string
  pDescription :: string
  pTag :: string

record ResponseField =
  rfField :: string
  rfType :: string
  rfDescription :: string
  rfTag :: string

record Response =
  rType :: string
  rFields :: "ResponseField list"

text \<open>A nil map is \<open>None\<close>: reading it finds nothing, writing to it panics.\<close>

record Entity =
  Name :: string
  Description :: string
  Response :: "Response option"
  Parameters :: "Parameter list"
  ParameterByName :: "(string \<rightharpoonup> Parameter) option"

definition NewEntity :: "string \<Rightarrow> Entity" where
  "NewEntity name =
     \<lparr>Name = name, Description = [], Response = None, Parameters = [],
      ParameterByName = None\<rparr>"

text \<open>
  \<^verbatim>\<open>Entities\<close> and \<^verbatim>\<open>EntitiesByName\<close> hold pointers to entities, so the entities live in
  a store. The address of the \<open>k\<close>-th entity that a run allocates is \<open>alloc k\<close>; the
  allocator is a parameter of every function that may allocate.
\<close>

type_synonym addr = nat

record Parser =
  Entities :: "addr list"
  EntitiesByName :: "(string \<rightharpoonup> addr) option"
  heap :: "addr \<rightharpoonup> Entity"
  allocs :: nat

text \<open>
  The parser that \<^verbatim>\<open>NewParser\<close> returns when the file parses and the template loads:
  \<^verbatim>\<open>Entities\<close> is an empty slice and \<^verbatim>\<open>EntitiesByName\<close> is not set.
\<close>

definition NewParser :: Parser where
  "NewParser = \<lparr>Entities = [], EntitiesByName = None, heap = Map.empty, allocs = 0\<rparr>"

definition new_entity :: "(nat \<Rightarrow> addr) \<Rightarrow> string \<Rightarrow> Parser \<Rightarrow> addr \<times> Parser" where
  "new_entity alloc name p =
     (let a = alloc (allocs p)
      in (a, p\<lparr>heap := (heap p)(a \<mapsto> NewEntity name), allocs := Suc (allocs p)\<rparr>))"

definition lookup_entity :: "Parser \<Rightarrow> string \<Rightarrow> addr option" where
  "lookup_entity p name = (case EntitiesByName p of None \<Rightarrow> None | Some m \<Rightarrow> m name)"

definition store_entity :: "string \<Rightarrow> addr \<Rightarrow> Parser \<Rightarrow> panic + Parser" where
  "store_entity name a p =
     (case EntitiesByName p of
        None \<Rightarrow> Inl NilMapAssign
      | Some m \<Rightarrow> Inr (p\<lparr>EntitiesByName := Some (m(name \<mapsto> a))\<rparr>))"

text \<open>\<^verbatim>\<open>if p.EntitiesByName[entity] == nil { p.EntitiesByName[entity] = NewEntity(entity) }\<close>\<close>

definition ensure_entity :: "(nat \<Rightarrow> addr) \<Rightarrow> string \<Rightarrow> Parser \<Rightarrow> panic + Parser" where
  "ensure_entity alloc entity p =
     (case lookup_entity p entity of
        None \<Rightarrow> (case new_entity alloc entity p of (a, p') \<Rightarrow> store_entity entity a p')
      | Some _ \<Rightarrow> Inr p)"

section \<open>Parameter extraction\<close>

definition newParameter :: "field \<Rightarrow> panic + Parameter" where
  "newParameter f =
     (case fNames f of
        [] \<Rightarrow> Inl IndexOutOfRange
      | n # _ \<Rightarrow>
          (case fTag f of
             None \<Rightarrow> Inl NilDereference
           | Some v \<Rightarrow>
               (case parseTag v of
                  Inl e \<Rightarrow> Inl e
                | Inr tag \<Rightarrow>
                    (case mapFieldType (fType f) of
                       Inl e \<Rightarrow> Inl e
                     | Inr ty \<Rightarrow>
                         Inr \<lparr>pField = n, pType = ty, pDescription = fDoc f, pTag = tag\<rparr>))))"

definition appendParameter ::
    "(nat \<Rightarrow> addr) \<Rightarrow> string \<Rightarrow> Parameter \<Rightarrow> Parser \<Rightarrow> panic + Parser" where
  "appendParameter alloc entity params p =
     (case ensure_entity alloc entity p of
        Inl e \<Rightarrow> Inl e
      | Inr p1 \<Rightarrow>
          (case lookup_entity p1 entity of
             None \<Rightarrow> Inl NilDereference
           | Some a \<Rightarrow>
               (case heap p1 a of
                  None \<Rightarrow> Inl NilDereference
                | Some e \<Rightarrow>
                    (case ParameterByName e of
                       None \<Rightarrow> Inl NilMapAssign
                     | Some m \<Rightarrow>
                         Inr (p1\<lparr>heap := (heap p1)(a \<mapsto>
                                e\<lparr>Parameters := Parameters e @ [params],
                                  ParameterByName := Some (m(pField params \<mapsto> params))\<rparr>)\<rparr>)))))"

fun addParameter :: "(nat \<Rightarrow> addr) \<Rightarrow> string \<Rightarrow> field list \<Rightarrow> Parser \<Rightarrow> panic + Parser" where
  "addParameter alloc entity [] p = Inr p"
| "addParameter alloc entity (f # fs) p =
     (case newParameter f of
        Inl e \<Rightarrow> Inl e
      | Inr params \<Rightarrow>
          (case appendParameter alloc entity params p of
             Inl e \<Rightarrow> Inl e
           | Inr p' \<Rightarrow> addParameter alloc entity fs p'))"

section \<open>Response extraction\<close>

definition newResponseField :: "field \<Rightarrow> panic + ResponseField" where
  "newResponseField f =
     (case fTag f of
        None \<Rightarrow> Inl NilDereference
      | Some v \<Rightarrow>
          (case parseTag v of
             Inl e \<Rightarrow> Inl e
           | Inr tag \<Rightarrow>
               (case mapFieldType (fType f) of
                  Inl e \<Rightarrow> Inl e
                | Inr ty \<Rightarrow>
                    Inr \<lparr>rfField = tag, rfType = ty, rfDescription = fDoc f, rfTag = []\<rparr>)))"

fun responseFields :: "field list \<Rightarrow> ResponseField list \<Rightarrow> panic + ResponseField list" where
  "responseFields [] acc = Inr acc"
| "responseFields (f # fs) acc =
     (case newResponseField f of
        Inl e \<Rightarrow> Inl e
      | Inr r \<Rightarrow> responseFields fs (acc @ [r]))"

definition buildResponse :: "expr \<Rightarrow> panic + Response" where
  "buildResponse x =
     (case x of
        StructType fs \<Rightarrow>
          (case responseFields fs [] of
             Inl e \<Rightarrow> Inl e
           | Inr rs \<Rightarrow> Inr \<lparr>rType = ''Object'', rFields = rs\<rparr>)
      | _ \<Rightarrow>
          (case mapFieldType x of
             Inl e \<Rightarrow> Inl e
           | Inr ty \<Rightarrow> Inr \<lparr>rType = ty, rFields = []\<rparr>))"

definition attachResponse :: "string \<Rightarrow> Response \<Rightarrow> Parser \<Rightarrow> panic + Parser" where
  "attachResponse entity response p =
     (if rType response \<noteq> ''Object'' \<or> length (rFields response) \<noteq> 0
      then (case lookup_entity p entity of
              None \<Rightarrow> Inl NilDereference
            | Some a \<Rightarrow>
                (case heap p a of
                   None \<Rightarrow> Inl NilDereference
                 | Some e \<Rightarrow> Inr (p\<lparr>heap := (heap p)(a \<mapsto> e\<lparr>Response := Some response\<rparr>)\<rparr>)))
      else Inr p)"

definition addResponseField :: "(nat \<Rightarrow> addr) \<Rightarrow> string \<Rightarrow> expr \<Rightarrow> Parser \<Rightarrow> panic + Parser" where
  "addResponseField alloc entity x p =
     (case ensure_entity alloc entity p of
        Inl e \<Rightarrow> Inl e
      | Inr p1 \<Rightarrow>
          (case buildResponse x of
             Inl e \<Rightarrow> Inl e
           | Inr response \<Rightarrow> attachResponse entity response p1))"

section \<open>Endpoint handlers\<close>

definition toUpper :: "string \<Rightarrow> string" where
  "toUpper s = (case s of [] \<Rightarrow> [] | c # cs \<Rightarrow> ToUpper_byte c @ cs)"

definition enhanceDescription :: "string \<Rightarrow> string \<Rightarrow> string" where
  "enhanceDescription description rpc = toUpper (Replace description (rpc @ '' ''))"

definition AddEndpoint :: "(nat \<Rightarrow> addr) \<Rightarrow> string \<Rightarrow> string \<Rightarrow> Parser \<Rightarrow> panic + Parser" where
  "AddEndpoint alloc name description p =
     (case (case lookup_entity p name of
              None \<Rightarrow> new_entity alloc name p
            | Some a \<Rightarrow> (a, p)) of
        (a, p1) \<Rightarrow>
          (case heap p1 a of
             None \<Rightarrow> Inl NilDereference
           | Some e \<Rightarrow>
               (case store_entity name a
                       (p1\<lparr>heap := (heap p1)(a \<mapsto>
                              e\<lparr>Description := enhanceDescription description name\<rparr>)\<rparr>) of
                  Inl e \<Rightarrow> Inl e
                | Inr p2 \<Rightarrow> Inr (p2\<lparr>Entities := Entities p2 @ [a]\<rparr>))))"

definition parseFunction :: "(nat \<Rightarrow> addr) \<Rightarrow> FuncDecl \<Rightarrow> Parser \<Rightarrow> panic + Parser" where
  "parseFunction alloc fd p =
     (case Recv fd of
        None \<Rightarrow> Inr p
      | Some l \<Rightarrow>
          (case l of
             [] \<Rightarrow> Inl IndexOutOfRange
           | t # _ \<Rightarrow>
               (case t of
                  StarExpr (Ident ident) \<Rightarrow>
                    (case fdName fd of
                       [] \<Rightarrow> Inl IndexOutOfRange
                     | c # _ \<Rightarrow>
                         if ident = ''api'' \<and> string_of_byte c = ToUpper_byte c
                         then AddEndpoint alloc (fdName fd) (fdDoc fd) p
                         else Inr p)
                | _ \<Rightarrow> Inr p)))"

section \<open>Declaration walker\<close>

text \<open>\<^verbatim>\<open>parseType\<close> returns a nil error on every path that returns.\<close>

definition parseType :: "(nat \<Rightarrow> addr) \<Rightarrow> TypeSpec \<Rightarrow> Parser \<Rightarrow> panic + (error option \<times> Parser)" where
  "parseType alloc st p =
     (case (if HasSuffix (tsName st) ''Request''
            then (case tsType st of
                    StructType fs \<Rightarrow> addParameter alloc (Replace (tsName st) ''Request'') fs p
                  | _ \<Rightarrow> Inl TypeAssertion)
            else Inr p) of
        Inl e \<Rightarrow> Inl e
      | Inr p1 \<Rightarrow>
          (case (if HasSuffix (tsName st) ''Response''
                 then addResponseField alloc (Replace (tsName st) ''Response'') (tsType st) p1
                 else Inr p1) of
             Inl e \<Rightarrow> Inl e
           | Inr p2 \<Rightarrow> Inr (None, p2)))"

text \<open>The function literal that \<^verbatim>\<open>Parse\<close> passes to \<^verbatim>\<open>ast.Inspect\<close>.\<close>

definition visit :: "(nat \<Rightarrow> addr) \<Rightarrow> decl \<Rightarrow> Parser \<Rightarrow> panic + (bool \<times> Parser)" where
  "visit alloc d p =
     (case d of
        TypeSpecD x \<Rightarrow>
          (case parseType alloc x p of
             Inl e \<Rightarrow> Inl e
           | Inr (err, p') \<Rightarrow> if err \<noteq> None then Inr (False, p') else Inr (True, p'))
      | FuncDeclD x \<Rightarrow>
          (case parseFunction alloc x p of
             Inl e \<Rightarrow> Inl e
           | Inr p' \<Rightarrow> Inr (True, p'))
      | OtherD \<Rightarrow> Inr (True, p))"

text \<open>
  \<^verbatim>\<open>ast.Inspect\<close>: depth first, the node before the nodes below it, which are skipped
  when the function returns false.
\<close>

fun Inspect :: "(decl \<Rightarrow> 's \<Rightarrow> panic + (bool \<times> 's)) \<Rightarrow> node \<Rightarrow> 's \<Rightarrow> panic + 's"
  and InspectList :: "(decl \<Rightarrow> 's \<Rightarrow> panic + (bool \<times> 's)) \<Rightarrow> node list \<Rightarrow> 's \<Rightarrow> panic + 's" where
  "Inspect f (Node d ns) s =
     (case f d s of
        Inl e \<Rightarrow> Inl e
      | Inr (descend, s') \<Rightarrow> if descend then InspectList f ns s' else Inr s')"
| "InspectList f [] s = Inr s"
| "InspectList f (n # ns) s =
     (case Inspect f n s of
        Inl e \<Rightarrow> Inl e
      | Inr s' \<Rightarrow> InspectList f ns s')"

text \<open>
  \<^verbatim>\<open>Parse\<close> walks the file and returns what \<^verbatim>\<open>generate\<close> returns. Rendering the
  template, the import pass and the write are outside the parser: \<open>generate\<close> stands for
  them and yields the error, if any.
\<close>

definition Parse ::
    "(nat \<Rightarrow> addr) \<Rightarrow> (Parser \<Rightarrow> error option) \<Rightarrow> node \<Rightarrow> Parser \<Rightarrow> panic + (error option \<times> Parser)" where
  "Parse alloc generate file p =
     (case Inspect (visit alloc) file p of
        Inl e \<Rightarrow> Inl e
      | Inr p' \<Rightarrow> Inr (generate p', p'))"

section \<open>Notions of the specification\<close>

text \<open>
  Following the specification's words: the string \<open>s\<close> starts with an annotation
  \<^verbatim>\<open>json:"w"\<close> or \<^verbatim>\<open>json:"w,omitempty"\<close> whose identifier \<open>w\<close> is a non-empty run of
  letters, digits and underscores.
\<close>

definition json_annotation :: "string \<Rightarrow> string \<Rightarrow> bool" where
  \<open>json_annotation s w =
     (w \<noteq> [] \<and> list_all is_word w
      \<and> (prefix (''json:"'' @ w @ ''"'') s \<or> prefix (''json:"'' @ w @ '',omitempty"'') s))\<close>

text \<open>What the registry shows as the Response of the entity with a given name.\<close>

definition response_of :: "Parser \<Rightarrow> string \<Rightarrow> Response option" where
  "response_of p name =
     (case lookup_entity p name of
        None \<Rightarrow> None
      | Some a \<Rightarrow> (case heap p a of None \<Rightarrow> None | Some e \<Rightarrow> Response e))"


text \<open>Upper-casing of an ASCII character: the letters a to z move, nothing else does.\<close>

definition ascii_upper :: "char \<Rightarrow> char" where
  "ascii_upper c =
     (if 97 \<le> (of_char c :: nat) \<and> (of_char c :: nat) \<le> 122 then char_of (of_char c - 32 :: nat)
      else c)"

text \<open>
  The declarations of the specification's end-to-end scenario, and a parser whose
  registry the caller has allocated before \<^verbatim>\<open>Parse\<close> (the field is exported).
\<close>

definition CreateWidgetRequest :: TypeSpec where
  \<open>CreateWidgetRequest =
     \<lparr>tsName = ''CreateWidgetRequest'',
      tsType = StructType [Field [''Name''] [] (Some ''`json:"name"`'') (Ident ''string'')]\<rparr>\<close>

definition CreateWidgetResponse :: TypeSpec where
  \<open>CreateWidgetResponse =
     \<lparr>tsName = ''CreateWidgetResponse'',
      tsType = StructType
        [Field [''ID''] [] (Some ''`json:"id"`'') (SelectorExpr ''globalid'' ''ID'')]\<rparr>\<close>

definition CreateWidget :: FuncDecl where
  "CreateWidget =
     \<lparr>Recv = Some [StarExpr (Ident ''api'')], fdName = ''CreateWidget'',
      fdDoc = ''CreateWidget creates a new widget.''\<rparr>"

definition allocated :: Parser where
  "allocated = NewParser\<lparr>EntitiesByName := Some Map.empty\<rparr>"

section \<open>Notions of the walk\<close>

text \<open>
  The declarations of a tree in document order, and the walk as the visit of each of them
  in turn; \<open>Inspect_preorder\<close> below shows that this is what \<^verbatim>\<open>ast.Inspect\<close> does with
  the function literal of \<^verbatim>\<open>Parse\<close>.
\<close>

fun preorder :: "node \<Rightarrow> decl list" where
  "preorder (Node d ns) = d # concat (map preorder ns)"

fun visit_all :: "(nat \<Rightarrow> addr) \<Rightarrow> decl list \<Rightarrow> Parser \<Rightarrow> panic + Parser" where
  "visit_all alloc [] p = Inr p"
| "visit_all alloc (d # ds) p =
     (case visit alloc d p of
        Inl e \<Rightarrow> Inl e
      | Inr (_, p') \<Rightarrow> visit_all alloc ds p')"

text \<open>The test of \<^verbatim>\<open>parseFunction\<close>: a method that it hands to \<^verbatim>\<open>AddEndpoint\<close>.\<close>

definition is_handler :: "FuncDecl \<Rightarrow> bool" where
  "is_handler fd =
     (case Recv fd of
        Some (StarExpr (Ident ident) # _) \<Rightarrow>
          (case fdName fd of
             [] \<Rightarrow> False
           | c # _ \<Rightarrow> ident = ''api'' \<and> string_of_byte c = ToUpper_byte c)
      | _ \<Rightarrow> False)"

fun handler_names :: "decl list \<Rightarrow> string list" where
  "handler_names [] = []"
| "handler_names (FuncDeclD fd # ds) =
     (if is_handler fd then fdName fd # handler_names ds else handler_names ds)"
| "handler_names (_ # ds) = handler_names ds"

text \<open>
  The registry is in order when every registered address has been handed out by the
  allocator and no address is registered under two names.
\<close>

definition registry_ok :: "(nat \<Rightarrow> addr) \<Rightarrow> Parser \<Rightarrow> bool" where
  "registry_ok alloc p =
     ((\<forall>n a. lookup_entity p n = Some a \<longrightarrow> (\<exists>k<allocs p. a = alloc k))
      \<and> (\<forall>n m a. lookup_entity p n = Some a \<and> lookup_entity p m = Some a \<longrightarrow> n = m))"

text \<open>An operation that leaves \<^verbatim>\<open>Entities\<close> alone and removes or redirects no registration.\<close>

definition keeps :: "Parser \<Rightarrow> Parser \<Rightarrow> bool" where
  "keeps p p' =
     (Entities p' = Entities p
      \<and> (\<forall>n a. lookup_entity p n = Some a \<longrightarrow> lookup_entity p' n = Some a))"

text \<open>Further declarations and files for the examples.\<close>

definition PingResponse :: TypeSpec where
  "PingResponse = \<lparr>tsName = ''PingResponse'', tsType = Ident ''string''\<rparr>"

definition PingRequest :: TypeSpec where
  "PingRequest = \<lparr>tsName = ''PingRequest'', tsType = Ident ''string''\<rparr>"

definition twice_file :: node where
  "twice_file =
     Node OtherD
       [Node (TypeSpecD PingResponse) [], Node (FuncDeclD CreateWidget) [],
        Node (FuncDeclD CreateWidget) []]"

definition twice_result :: Parser where
  "twice_result =
     \<lparr>Entities = [1, 1],
      EntitiesByName = Some [''Ping'' \<mapsto> 0, ''CreateWidget'' \<mapsto> 1],
      heap =
        [0 \<mapsto> \<lparr>Name = ''Ping'', Description = [],
                  Response = Some \<lparr>rType = ''string'', rFields = []\<rparr>, Parameters = [],
                  ParameterByName = None\<rparr>,
         1 \<mapsto> \<lparr>Name = ''CreateWidget'', Description = ''Creates a new widget.'',
                  Response = None, Parameters = [], ParameterByName = None\<rparr>],
      allocs = 2\<rparr>"

definition malformed_file :: node where
  "malformed_file =
     Node OtherD
       [Node (FuncDeclD CreateWidget) [], Node (TypeSpecD PingRequest) [],
        Node (TypeSpecD CreateWidgetResponse) []]"

definition helper :: FuncDecl where
  "helper = \<lparr>Recv = None, fdName = ''helper'', fdDoc = []\<rparr>"

definition Widget :: TypeSpec where
  "Widget = \<lparr>tsName = ''Widget'', tsType = Ident ''int''\<rparr>"

section \<open>The entity model without addresses\<close>



text \<open>
  The state \<open>p\<close> of a run with the allocator \<open>alloc\<close> is the state \<open>c\<close> of the run that
  numbers its entities 0, 1, 2, ... with every address \<open>k\<close> replaced by \<open>alloc k\<close>.
\<close>

definition renamed :: "(nat \<Rightarrow> addr) \<Rightarrow> Parser \<Rightarrow> Parser \<Rightarrow> bool" where
  "renamed alloc c p =
     (allocs p = allocs c
      \<and> Entities p = map alloc (Entities c)
      \<and> EntitiesByName p = map_option (\<lambda>m n. map_option alloc (m n)) (EntitiesByName c)
      \<and> (\<forall>k<allocs c. heap p (alloc k) = heap c k)
      \<and> (\<forall>a\<in>set (Entities c). a < allocs c)
      \<and> (\<forall>n a. lookup_entity c n = Some a \<longrightarrow> a < allocs c))"


section \<open>The type mapper, case by case\<close>

text \<open>
  Claim C2. The type mapper returns the name of a bare identifier, the name of the
  identifier under a single pointer and \<open>Object\<close> for a pointer to anything else,
  \<open>Array\<close> for every array or slice type whatever its element type, \<open>UUID\<close> for
  \<open>globalid.ID\<close>, \<open>string\<close> for \<open>model.ReactionType\<close>, \<open>Object\<close> for
  \<open>model.CardsResponse\<close>, \<open>model.CardResponse\<close> and \<open>model.Draft\<close>, the qualified name
  itself for every other qualified name, and for an expression of any other shape it
  panics: no type is returned.
\<close>

theorem mapFieldType_vocabulary:
  "mapFieldType (Ident n) = Inr n
   \<and> mapFieldType (StarExpr (Ident n)) = Inr n
   \<and> ((\<forall>m. x \<noteq> Ident m) \<longrightarrow> mapFieldType (StarExpr x) = Inr ''Object'')
   \<and> mapFieldType (ArrayType len elt) = Inr ''Array''
   \<and> mapFieldType (SelectorExpr ''globalid'' ''ID'') = Inr ''UUID''
   \<and> mapFieldType (SelectorExpr ''model'' ''ReactionType'') = Inr ''string''
   \<and> mapFieldType (SelectorExpr ''model'' ''CardsResponse'') = Inr ''Object''
   \<and> mapFieldType (SelectorExpr ''model'' ''CardResponse'') = Inr ''Object''
   \<and> mapFieldType (SelectorExpr ''model'' ''Draft'') = Inr ''Object''
   \<and> (pkg @ ''.'' @ sel \<notin> {''globalid.ID'', ''model.ReactionType'', ''model.CardsResponse'',
                             ''model.CardResponse'', ''model.Draft''}
        \<longrightarrow> mapFieldType (SelectorExpr pkg sel) = Inr (pkg @ ''.'' @ sel))
   \<and> ((\<forall>m. e \<noteq> Ident m) \<and> (\<forall>y. e \<noteq> StarExpr y) \<and> (\<forall>a b. e \<noteq> SelectorExpr a b)
        \<and> (\<forall>l t. e \<noteq> ArrayType l t)
        \<longrightarrow> mapFieldType e = Inl (UnmappedType e))"
proof -
  have star: "(\<forall>m. x \<noteq> Ident m) \<longrightarrow> mapFieldType (StarExpr x) = Inr ''Object''"
    by (cases x) simp_all
  have qname:
    "pkg @ ''.'' @ sel \<notin> {''globalid.ID'', ''model.ReactionType'', ''model.CardsResponse'',
                           ''model.CardResponse'', ''model.Draft''}
     \<longrightarrow> mapFieldType (SelectorExpr pkg sel) = Inr (pkg @ ''.'' @ sel)"
    by (simp add: Let_def)
  have other:
    "(\<forall>m. e \<noteq> Ident m) \<and> (\<forall>y. e \<noteq> StarExpr y) \<and> (\<forall>a b. e \<noteq> SelectorExpr a b)
       \<and> (\<forall>l t. e \<noteq> ArrayType l t)
     \<longrightarrow> mapFieldType e = Inl (UnmappedType e)"
    by (cases e) simp_all
  show ?thesis
    using star qname other by simp
qed

theorem mapFieldType_vocabulary_witness:
  "mapFieldType (StarExpr (ArrayType None (Ident ''int''))) = Inr ''Object''
   \<and> mapFieldType (SelectorExpr ''model'' ''User'') = Inr ''model.User''
   \<and> mapFieldType (MapType (Ident ''string'') (Ident ''int''))
       = Inl (UnmappedType (MapType (Ident ''string'') (Ident ''int'')))"
  using mapFieldType_vocabulary
    [of "''n''" "ArrayType None (Ident ''int'')" None "Ident ''int''" "''model''" "''User''"
        "MapType (Ident ''string'') (Ident ''int'')"]
  by simp

section \<open>The tag extractor and the annotations of a tag\<close>

lemma group2_word: "is_word c \<Longrightarrow> group2 (c # t) = None"
  by (auto simp: group2_def is_word_def)

lemma group2_SomeD:
  \<open>group2 r = Some (g2, tail) \<Longrightarrow>
     prefix tail r \<and> (tail = ''"'' \<or> tail = '',omitempty"'')\<close>
  by (auto simp: group2_def split: if_splits)

lemma group2_SomeI:
  \<open>prefix ''"'' r \<or> prefix '',omitempty"'' r \<Longrightarrow> \<exists>g2 tail. group2 r = Some (g2, tail)\<close>
  by (auto simp: group2_def)

lemma first_match_hit:
  assumes "w \<in> set gs" and "\<forall>g\<in>set gs. g \<noteq> [] \<and> prefix g w"
    and "list_all is_word w" and "group2 rest = Some (g2, tail)"
  shows "\<exists>m0. first_match (w @ rest) gs = Some [m0, w, g2]"
  using assms(1,2)
proof (induction gs)
  case Nil
  then show ?case by simp
next
  case (Cons g gs)
  show ?case
  proof (cases "g = w")
    case True
    then show ?thesis using assms(4) by simp
  next
    case False
    from Cons.prems have pg: "prefix g w" and gne: "g \<noteq> []" by auto
    from pg False obtain c t where w: "w = g @ c # t"
      by (metis prefixE append_Nil2 neq_Nil_conv)
    with assms(3) have "is_word c" by simp
    then have "group2 (drop (length g) (w @ rest)) = None"
      using w by (simp add: group2_word)
    moreover from Cons.prems False have "w \<in> set gs" "\<forall>g\<in>set gs. g \<noteq> [] \<and> prefix g w"
      by auto
    ultimately show ?thesis using Cons.IH by simp
  qed
qed

lemma first_match_SomeD:
  "first_match r gs = Some m \<Longrightarrow>
     \<exists>g\<in>set gs. \<exists>g2 tail m0. group2 (drop (length g) r) = Some (g2, tail) \<and> m = [m0, g, g2]"
  by (induction gs) (auto split: option.splits)

lemma first_match_None:
  "first_match r gs = None \<Longrightarrow> g \<in> set gs \<Longrightarrow> group2 (drop (length g) r) = None"
  by (induction gs) (auto split: option.splits)

lemma candidates_sound:
  assumes "g \<in> set (group1_candidates r)"
  shows "g \<noteq> [] \<and> list_all is_word g \<and> prefix g r"
proof -
  from assms consider
      (digit) c t where "r = c # t" "is_digit c" "g = [c]"
    | (run) "g \<in> set (tl (prefixes (takeWhile is_word r)))"
    by (auto simp: group1_candidates_def split: list.splits if_splits)
  then show ?thesis
  proof cases
    case digit
    then show ?thesis by (auto simp: is_digit_def is_word_def Let_def)
  next
    case run
    then have "g \<noteq> []" "prefix g (takeWhile is_word r)"
      by (cases "takeWhile is_word r"; auto simp: in_set_prefixes)+
    moreover have "prefix (takeWhile is_word r) r"
      by (metis prefixI takeWhile_dropWhile_id)
    moreover have "list_all is_word (takeWhile is_word r)"
      by (simp add: list_all_iff) (metis set_takeWhileD)
    ultimately show ?thesis
      by (metis list_all_append prefixE prefix_order.trans)
  qed
qed


lemma match_here_complete:
  assumes "json_annotation s w"
  shows "\<exists>m0 g2. match_here s = Some [m0, w, g2]"
proof -
  from assms have wne: "w \<noteq> []" and ww: "list_all is_word w" by (auto simp: json_annotation_def)
  from assms obtain tail where tail: \<open>tail = ''"'' \<or> tail = '',omitempty"''\<close>
    and pre: \<open>prefix (''json:"'' @ w @ tail) s\<close>
    by (auto simp: json_annotation_def)
  then obtain post where s: \<open>s = ''json:"'' @ w @ tail @ post\<close>
    by (auto simp: prefix_def)
  define rest where "rest = tail @ post"
  have r: "drop 6 s = w @ rest" using s by (simp add: rest_def)
  have hd_rest: "\<exists>c t. rest = c # t \<and> \<not> is_word c"
    using tail by (auto simp: rest_def is_word_def)
  then have tw: "takeWhile is_word (w @ rest) = w"
    using ww by (auto simp: takeWhile_append2 list_all_iff)
  obtain g2 tl' where g2: "group2 rest = Some (g2, tl')"
    using tail group2_SomeI[of rest] by (auto simp: rest_def)
  have "w \<in> set (tl (prefixes w))"
    using wne by (cases w) (auto simp: in_set_prefixes)
  then have mem: "w \<in> set (group1_candidates (w @ rest))"
    by (simp add: group1_candidates_def tw)
  have "\<forall>g\<in>set (group1_candidates (w @ rest)). g \<noteq> [] \<and> prefix g w"
  proof
    fix g assume g: "g \<in> set (group1_candidates (w @ rest))"
    then have "g = [hd (w @ rest)] \<or> g \<in> set (tl (prefixes w))"
      by (auto simp: group1_candidates_def tw split: list.splits if_splits)
         (metis list.sel(1))
    then show "g \<noteq> [] \<and> prefix g w"
    proof
      assume "g = [hd (w @ rest)]"
      then show ?thesis using wne by (cases w) auto
    next
      assume "g \<in> set (tl (prefixes w))"
      then show ?thesis by (cases w; auto simp: in_set_prefixes)
    qed
  qed
  from first_match_hit[OF mem this ww g2]
  obtain m0 where "first_match (w @ rest) (group1_candidates (w @ rest)) = Some [m0, w, g2]"
    by blast
  then show ?thesis using s r by (auto simp: match_here_def)
qed

lemma match_here_sound:
  assumes "match_here s = Some m"
  shows "\<exists>m0 w g2. m = [m0, w, g2] \<and> json_annotation s w"
proof -
  from assms have pre: \<open>prefix ''json:"'' s\<close>
    and fm: "first_match (drop 6 s) (group1_candidates (drop 6 s)) = Some m"
    by (auto simp: match_here_def split: if_splits)
  from first_match_SomeD[OF fm] obtain g g2 tail m0 where
    g: "g \<in> set (group1_candidates (drop 6 s))"
    and g2: "group2 (drop (length g) (drop 6 s)) = Some (g2, tail)" and m: "m = [m0, g, g2]"
    by blast
  from candidates_sound[OF g] have gne: "g \<noteq> []" and gw: "list_all is_word g"
    and gp: "prefix g (drop 6 s)" by auto
  from group2_SomeD[OF g2] have tp: "prefix tail (drop (length g) (drop 6 s))"
    and tail: \<open>tail = ''"'' \<or> tail = '',omitempty"''\<close> by auto
  from pre obtain r where s: \<open>s = ''json:"'' @ r\<close> by (auto simp: prefix_def)
  then have r: "drop 6 s = r" by simp
  from gp r obtain r' where r': "r = g @ r'" by (auto simp: prefix_def)
  with tp r obtain r'' where "r' = tail @ r''" by (auto simp: prefix_def)
  with s r' have \<open>s = ''json:"'' @ g @ tail @ r''\<close> by simp
  then have \<open>prefix (''json:"'' @ g @ tail) s\<close> by (simp add: prefix_def)
  with tail gne gw have "json_annotation s g" by (auto simp: json_annotation_def)
  with m show ?thesis by blast
qed

lemma FindStringSubmatch_leftmost:
  "match_here (drop i s) = Some m \<Longrightarrow> (\<forall>j<i. match_here (drop j s) = None)
     \<Longrightarrow> FindStringSubmatch s = Some m"
proof (induction s arbitrary: i)
  case Nil
  then show ?case by simp
next
  case (Cons c cs)
  show ?case
  proof (cases i)
    case 0
    with Cons.prems show ?thesis by simp
  next
    case (Suc k)
    with Cons.prems have "match_here (c # cs) = None" by (metis drop0 zero_less_Suc)
    moreover from Cons.prems Suc have "match_here (drop k cs) = Some m" by simp
    moreover from Cons.prems Suc have "\<forall>j<k. match_here (drop j cs) = None"
      by (metis Suc_less_eq drop_Suc_Cons)
    ultimately show ?thesis using Cons.IH by simp
  qed
qed

lemma FindStringSubmatch_none:
  "(\<forall>i. match_here (drop i s) = None) \<Longrightarrow> FindStringSubmatch s = None"
proof (induction s)
  case Nil
  then show ?case by (metis FindStringSubmatch.simps(1) drop_Nil)
next
  case (Cons c cs)
  have "match_here (c # cs) = None" using Cons.prems by (metis drop0)
  moreover have "\<forall>i. match_here (drop i cs) = None"
    using Cons.prems by (metis drop_Suc_Cons)
  ultimately show ?case using Cons.IH by simp
qed

lemma parseTag_leftmost:
  assumes "json_annotation (drop i tag) w"
    and "\<forall>j<i. \<forall>v. \<not> json_annotation (drop j tag) v"
  shows "parseTag tag = Inr w"
proof -
  from match_here_complete[OF assms(1)] obtain m0 g2 where
    "match_here (drop i tag) = Some [m0, w, g2]" by blast
  moreover have "\<forall>j<i. match_here (drop j tag) = None"
  proof (intro allI impI)
    fix j assume "j < i"
    show "match_here (drop j tag) = None"
    proof (rule ccontr)
      assume "match_here (drop j tag) \<noteq> None"
      then obtain m where "match_here (drop j tag) = Some m" by auto
      from match_here_sound[OF this] assms(2) \<open>j < i\<close> show False by blast
    qed
  qed
  ultimately have "FindStringSubmatch tag = Some [m0, w, g2]"
    by (rule FindStringSubmatch_leftmost)
  then show ?thesis by (simp add: parseTag_def)
qed

lemma parseTag_no_annotation:
  assumes "\<forall>i w. \<not> json_annotation (drop i tag) w"
  shows "parseTag tag = Inl IndexOutOfRange"
proof -
  have "\<forall>i. match_here (drop i tag) = None"
  proof
    fix i
    show "match_here (drop i tag) = None"
    proof (rule ccontr)
      assume "match_here (drop i tag) \<noteq> None"
      then obtain m where "match_here (drop i tag) = Some m" by auto
      from match_here_sound[OF this] assms show False by blast
    qed
  qed
  then have "FindStringSubmatch tag = None" by (rule FindStringSubmatch_none)
  then show ?thesis by (simp add: parseTag_def)
qed

text \<open>
  Claim C6. When the tag text holds an annotation \<^verbatim>\<open>json:"<identifier>"\<close>, with or without
  \<^verbatim>\<open>,omitempty\<close> after the identifier, the tag extractor returns the identifier of the
  leftmost such annotation; when the text holds no such annotation the extractor panics
  (index out of range on the empty match) and returns nothing.
\<close>

theorem parseTag_annotation:
  "(json_annotation (drop i tag) w \<and> (\<forall>j<i. \<forall>v. \<not> json_annotation (drop j tag) v)
      \<longrightarrow> parseTag tag = Inr w)
   \<and> ((\<exists>i w. json_annotation (drop i tag) w)
      \<longrightarrow> (\<exists>i w. json_annotation (drop i tag) w \<and> parseTag tag = Inr w))
   \<and> ((\<forall>i w. \<not> json_annotation (drop i tag) w) \<longrightarrow> parseTag tag = Inl IndexOutOfRange)"
proof (intro conjI impI)
  assume "json_annotation (drop i tag) w \<and> (\<forall>j<i. \<forall>v. \<not> json_annotation (drop j tag) v)"
  then show "parseTag tag = Inr w" using parseTag_leftmost by blast
next
  assume ex: "\<exists>i w. json_annotation (drop i tag) w"
  define k where "k = (LEAST i. \<exists>w. json_annotation (drop i tag) w)"
  from ex have "\<exists>w. json_annotation (drop k tag) w"
    unfolding k_def by (rule LeastI_ex)
  then obtain w where w: "json_annotation (drop k tag) w" by blast
  have "\<forall>j<k. \<forall>v. \<not> json_annotation (drop j tag) v"
    unfolding k_def using not_less_Least by blast
  with w have "parseTag tag = Inr w" by (rule parseTag_leftmost)
  with w show "\<exists>i w. json_annotation (drop i tag) w \<and> parseTag tag = Inr w" by blast
next
  assume "\<forall>i w. \<not> json_annotation (drop i tag) w"
  then show "parseTag tag = Inl IndexOutOfRange" by (rule parseTag_no_annotation)
qed

theorem parseTag_annotation_witness:
  \<open>json_annotation (drop 1 ''`json:"name,omitempty" db:"n"`'') ''name''
   \<and> (\<forall>v. \<not> json_annotation (drop 0 ''`json:"name,omitempty" db:"n"`'') v)
   \<and> parseTag ''`json:"name,omitempty" db:"n"`'' = Inr ''name''
   \<and> (\<forall>i w. \<not> json_annotation (drop i ''`json:"-"`'') w)
   \<and> parseTag ''`json:"-"`'' = Inl IndexOutOfRange\<close>
proof -
  have a: \<open>json_annotation (drop 1 ''`json:"name,omitempty" db:"n"`'') ''name''\<close>
    by (simp add: json_annotation_def is_word_def)
  have b0: \<open>\<forall>v. \<not> json_annotation (drop 0 ''`json:"name,omitempty" db:"n"`'') v\<close>
    by (simp add: json_annotation_def)
  then have b: \<open>\<forall>j<1. \<forall>v. \<not> json_annotation (drop j ''`json:"name,omitempty" db:"n"`'') v\<close>
    by simp
  have c: \<open>parseTag ''`json:"-"`'' = Inl IndexOutOfRange\<close>
    by (simp add: parseTag_def match_here_def group1_candidates_def group2_def
        is_digit_def is_word_def)
  have d: \<open>\<forall>i w. \<not> json_annotation (drop i ''`json:"-"`'') w\<close>
    using parseTag_annotation [of 0 \<open>''`json:"-"`''\<close> "[]"] c by auto
  show ?thesis
    using a b b0 d
      parseTag_annotation [of 1 \<open>''`json:"name,omitempty" db:"n"`''\<close> "''name''"]
      parseTag_annotation [of 0 \<open>''`json:"-"`''\<close> "[]"]
    by blast
qed

section \<open>Evaluation\<close>

lemmas tag_defs = parseTag_def match_here_def group1_candidates_def group2_def
  is_digit_def is_word_def

lemmas entity_defs = Let_def new_entity_def lookup_entity_def store_entity_def
  ensure_entity_def NewEntity_def

lemmas walk_defs = Parse_def visit_def parseType_def parseFunction_def HasSuffix_def

lemma newParameter_Name:
  \<open>newParameter (Field [''Name''] [] (Some ''`json:"name"`'') (Ident ''string''))
     = Inr \<lparr>pField = ''Name'', pType = ''string'', pDescription = [], pTag = ''name''\<rparr>\<close>
  by (simp add: newParameter_def tag_defs)

lemma buildResponse_ID:
  \<open>buildResponse (StructType
       [Field [''ID''] [] (Some ''`json:"id"`'') (SelectorExpr ''globalid'' ''ID'')])
     = Inr \<lparr>rType = ''Object'',
            rFields = [\<lparr>rfField = ''id'', rfType = ''UUID'', rfDescription = [], rfTag = []\<rparr>]\<rparr>\<close>
  by (simp add: buildResponse_def newResponseField_def tag_defs)

section \<open>Parameters of a Request declaration\<close>

text \<open>
  The first field of a Request declaration whose entity is not registered yet always
  ends in the panic of a write to a nil map: of the registry when it is nil, of the new
  entity's \<^verbatim>\<open>ParameterByName\<close> otherwise.
\<close>

lemma addParameter_unregistered_panics:
  assumes "newParameter f = Inr params" and "lookup_entity p entity = None"
  shows "addParameter alloc entity (f # fs) p = Inl NilMapAssign"
proof (cases "EntitiesByName p")
  case None
  with assms show ?thesis
    by (simp add: appendParameter_def entity_defs)
next
  case (Some m)
  with assms show ?thesis
    by (simp add: appendParameter_def entity_defs)
qed

text \<open>
  Claim C1 says that after \<^verbatim>\<open>Parse\<close> the entity of a Request declaration with N tagged
  fields has N Parameters, indexed by field name. On the Request declaration of the
  end-to-end scenario the run panics instead, on the first field: with the parser that
  \<^verbatim>\<open>NewParser\<close> returns the registry is a nil map, and with a registry allocated by the
  caller the entity that \<^verbatim>\<open>NewEntity\<close> returns has a nil \<^verbatim>\<open>ParameterByName\<close>.
\<close>

theorem Parse_Request_nil_map:
  "Parse alloc generate (Node OtherD [Node (TypeSpecD CreateWidgetRequest) []]) NewParser
     = Inl NilMapAssign
   \<and> Parse alloc generate (Node OtherD [Node (TypeSpecD CreateWidgetRequest) []]) allocated
     = Inl NilMapAssign"
  by (simp add: walk_defs CreateWidgetRequest_def newParameter_Name appendParameter_def
      entity_defs NewParser_def allocated_def)

section \<open>Attaching a Response\<close>

lemma HasSuffixD: "HasSuffix s suf \<Longrightarrow> \<exists>pre. s = pre @ suf"
  by (metis HasSuffix_def append_take_drop_id)

lemma suffix_Response_not_Request:
  assumes "HasSuffix s ''Response''"
  shows "\<not> HasSuffix s ''Request''"
proof -
  from HasSuffixD[OF assms] obtain pre where "s = pre @ ''Response''" ..
  then show ?thesis by (simp add: HasSuffix_def)
qed

lemma ensure_entity_response:
  "ensure_entity alloc entity p = Inr p1 \<Longrightarrow> response_of p1 entity = response_of p entity"
  by (auto simp: ensure_entity_def response_of_def lookup_entity_def store_entity_def
      new_entity_def NewEntity_def Let_def split: option.splits)

lemma attachResponse_response:
  "attachResponse entity r p1 = Inr p' \<Longrightarrow>
     response_of p' entity =
       (if rType r \<noteq> ''Object'' \<or> rFields r \<noteq> [] then Some r else response_of p1 entity)"
  by (auto simp: attachResponse_def response_of_def lookup_entity_def
      split: option.splits if_splits)

lemma addResponseField_response:
  assumes "addResponseField alloc entity x p = Inr p'"
  shows "\<exists>r. buildResponse x = Inr r \<and>
     response_of p' entity =
       (if rType r \<noteq> ''Object'' \<or> rFields r \<noteq> [] then Some r else response_of p entity)"
proof -
  from assms obtain p1 r where e: "ensure_entity alloc entity p = Inr p1"
    and b: "buildResponse x = Inr r" and a: "attachResponse entity r p1 = Inr p'"
    by (auto simp: addResponseField_def split: sum.splits)
  from attachResponse_response[OF a] ensure_entity_response[OF e] b show ?thesis by simp
qed

text \<open>
  Claim C3. When a Response-suffixed declaration has been processed, the entity's
  Response is the built Response exactly when the built Response has a Type other than
  \<open>Object\<close> or at least one field; otherwise it is what it was before the declaration
  (unset, or the value attached earlier). In particular a struct without fields leaves
  it as it was.
\<close>

theorem Response_attachment:
  assumes "HasSuffix (tsName st) ''Response''"
    and "parseType alloc st p = Inr (err, p')"
  shows "(\<exists>r. buildResponse (tsType st) = Inr r \<and>
            response_of p' (Replace (tsName st) ''Response'') =
              (if rType r \<noteq> ''Object'' \<or> rFields r \<noteq> [] then Some r
               else response_of p (Replace (tsName st) ''Response'')))
         \<and> (tsType st = StructType [] \<longrightarrow>
              response_of p' (Replace (tsName st) ''Response'')
                = response_of p (Replace (tsName st) ''Response''))"
proof -
  from assms(1) have "\<not> HasSuffix (tsName st) ''Request''"
    by (rule suffix_Response_not_Request)
  with assms have
    "addResponseField alloc (Replace (tsName st) ''Response'') (tsType st) p = Inr p'"
    by (auto simp: parseType_def split: sum.splits)
  then have main: "\<exists>r. buildResponse (tsType st) = Inr r \<and>
      response_of p' (Replace (tsName st) ''Response'') =
        (if rType r \<noteq> ''Object'' \<or> rFields r \<noteq> [] then Some r
         else response_of p (Replace (tsName st) ''Response''))"
    by (rule addResponseField_response)
  moreover have "buildResponse (StructType []) = Inr \<lparr>rType = ''Object'', rFields = []\<rparr>"
    by (simp add: buildResponse_def)
  ultimately show ?thesis by auto
qed

theorem Response_attachment_witness:
  \<open>HasSuffix (tsName CreateWidgetResponse) ''Response''
   \<and> (\<exists>p'. parseType (\<lambda>k. k) CreateWidgetResponse allocated = Inr (None, p')
          \<and> response_of p' ''CreateWidget'' =
              Some \<lparr>rType = ''Object'',
                    rFields = [\<lparr>rfField = ''id'', rfType = ''UUID'', rfDescription = [],
                                rfTag = []\<rparr>]\<rparr>)
   \<and> (\<exists>p'. parseType (\<lambda>k. k) \<lparr>tsName = ''PingResponse'', tsType = StructType []\<rparr> allocated
              = Inr (None, p')
          \<and> response_of p' ''Ping'' = None)\<close>
proof -
  have s: "HasSuffix (tsName CreateWidgetResponse) ''Response''"
    by (simp add: CreateWidgetResponse_def HasSuffix_def)
  have n: "Replace (tsName CreateWidgetResponse) ''Response'' = ''CreateWidget''"
    by (simp add: CreateWidgetResponse_def)
  have t: \<open>tsType CreateWidgetResponse = StructType
      [Field [''ID''] [] (Some ''`json:"id"`'') (SelectorExpr ''globalid'' ''ID'')]\<close>
    by (simp add: CreateWidgetResponse_def)
  have "\<exists>p'. parseType (\<lambda>k. k) CreateWidgetResponse allocated = Inr (None, p')"
    by (simp add: parseType_def HasSuffix_def CreateWidgetResponse_def addResponseField_def
        buildResponse_ID attachResponse_def entity_defs allocated_def NewParser_def)
  then obtain p' where e: "parseType (\<lambda>k. k) CreateWidgetResponse allocated = Inr (None, p')" ..
  have first: "response_of p' ''CreateWidget'' =
      Some \<lparr>rType = ''Object'',
            rFields = [\<lparr>rfField = ''id'', rfType = ''UUID'', rfDescription = [],
                        rfTag = []\<rparr>]\<rparr>"
    using Response_attachment [OF s e] by (simp add: n t buildResponse_ID)
  let ?ping = "\<lparr>tsName = ''PingResponse'', tsType = StructType []\<rparr>"
  have s2: "HasSuffix (tsName ?ping) ''Response''"
    by (simp add: HasSuffix_def)
  have "\<exists>q. parseType (\<lambda>k. k) ?ping allocated = Inr (None, q)"
    by (simp add: parseType_def HasSuffix_def addResponseField_def buildResponse_def
        attachResponse_def entity_defs allocated_def NewParser_def)
  then obtain q where e2: "parseType (\<lambda>k. k) ?ping allocated = Inr (None, q)" ..
  have "response_of allocated ''Ping'' = None"
    by (simp add: response_of_def lookup_entity_def allocated_def NewParser_def)
  then have second: "response_of q ''Ping'' = None"
    using Response_attachment [OF s2 e2] by simp
  show ?thesis using s e first e2 second by blast
qed

section \<open>The entity name of a declaration\<close>

text \<open>
  Claim C4 says that the entity name is the declaration name without its trailing
  suffix, also when the suffix string occurs earlier in the name. The code removes every
  occurrence: the fields of \<open>RequestLogRequest\<close> and the Response of
  \<open>ResponseLogResponse\<close> are recorded under \<open>Log\<close>, and nothing is recorded under
  \<open>RequestLog\<close> or \<open>ResponseLog\<close>.
\<close>

theorem parseType_strips_every_occurrence:
  \<open>(case parseType alloc \<lparr>tsName = ''ResponseLogResponse'', tsType = Ident ''string''\<rparr>
            allocated of
      Inl e \<Rightarrow> False
    | Inr (err, p') \<Rightarrow>
        response_of p' ''Log'' = Some \<lparr>rType = ''string'', rFields = []\<rparr>
        \<and> lookup_entity p' ''ResponseLog'' = None)
   \<and> (case parseType alloc
            \<lparr>tsName = ''RequestLogRequest'',
             tsType = StructType
               [Field [''Name''] [] (Some ''`json:"name"`'') (Ident ''string'')]\<rparr>
            \<lparr>Entities = [], EntitiesByName = Some [''Log'' \<mapsto> 0],
             heap = [0 \<mapsto> (NewEntity ''Log'')\<lparr>ParameterByName := Some Map.empty\<rparr>],
             allocs = 1\<rparr> of
      Inl e \<Rightarrow> False
    | Inr (err, p') \<Rightarrow>
        map_option Parameters (heap p' 0)
          = Some [\<lparr>pField = ''Name'', pType = ''string'', pDescription = [], pTag = ''name''\<rparr>]
        \<and> lookup_entity p' ''Log'' = Some 0
        \<and> lookup_entity p' ''RequestLog'' = None)\<close>
  by (simp add: parseType_def HasSuffix_def addResponseField_def buildResponse_def
      attachResponse_def response_of_def newParameter_Name appendParameter_def
      entity_defs allocated_def NewParser_def)

section \<open>Handlers: the description and the exported-name check\<close>



lemma utf8_ascii: "(of_char c :: nat) < 128 \<Longrightarrow> utf8 (of_char c) = [c]"
  by (simp add: utf8_def)

lemma string_of_byte_ascii: "(of_char c :: nat) < 128 \<Longrightarrow> string_of_byte c = [c]"
  by (simp add: string_of_byte_def utf8_ascii)

lemma ToUpper_byte_ascii: "(of_char c :: nat) < 128 \<Longrightarrow> ToUpper_byte c = [ascii_upper c]"
  by (auto simp: ToUpper_byte_def unicode_ToUpper_def ascii_upper_def utf8_def)

lemma toUpper_ascii: "(of_char c :: nat) < 128 \<Longrightarrow> toUpper (c # cs) = ascii_upper c # cs"
  by (simp add: toUpper_def ToUpper_byte_ascii)

lemma ascii_upper_fixed:
  "ascii_upper c = c \<longleftrightarrow> \<not> (97 \<le> (of_char c :: nat) \<and> (of_char c :: nat) \<le> 122)"
proof (cases "97 \<le> (of_char c :: nat) \<and> (of_char c :: nat) \<le> 122")
  case True
  have "char_of (of_char c - 32 :: nat) \<noteq> c"
  proof
    assume "char_of (of_char c - 32 :: nat) = c"
    then have "(of_char (char_of (of_char c - 32 :: nat)) :: nat) = of_char c" by simp
    then have m: "(of_char c - 32 :: nat) mod 256 = of_char c" by (simp only: of_char_of)
    define n where "n = (of_char c :: nat)"
    from True have b: "97 \<le> n" "n \<le> 122" unfolding n_def by simp_all
    from b have "(n - 32) mod 256 = n - 32" by (intro mod_less) arith
    moreover from m have "(n - 32) mod 256 = n" unfolding n_def .
    ultimately show False using b by arith
  qed
  moreover from True have "ascii_upper c = char_of (of_char c - 32 :: nat)"
    unfolding ascii_upper_def by (rule if_P)
  ultimately show ?thesis using True by metis
next
  case False
  then have "ascii_upper c = c" unfolding ascii_upper_def by (rule if_not_P)
  with False show ?thesis by metis
qed


lemma parseFunction_handler:
  assumes "Recv fd = Some (StarExpr (Ident ''api'') # ts)" and "fdName fd = c # cs"
    and "string_of_byte c = ToUpper_byte c"
  shows "parseFunction alloc fd p = AddEndpoint alloc (fdName fd) (fdDoc fd) p"
  using assms by (simp add: parseFunction_def)




section \<open>The exported-name check\<close>

text \<open>
  Claim C10 says that every method on \<open>*api\<close> whose name begins with a character that
  upper-cases to itself is treated as a handler. The check reads the first byte only:
  a name that begins with the bytes E4 B8 AD, the UTF-8 encoding of a Chinese letter
  that has no case, is not treated as a handler, since the code point E4 of its first
  byte is a lower-case letter. The parser is left as it was.
\<close>

theorem exported_check_first_byte_counterexample:
  "parseFunction id
       \<lparr>Recv = Some [StarExpr (Ident ''api'')],
        fdName = [CHR 0xE4, CHR 0xB8, CHR 0xAD], fdDoc = []\<rparr> allocated
     = Inr allocated
   \<and> Entities allocated = []
   \<and> lookup_entity allocated [CHR 0xE4, CHR 0xB8, CHR 0xAD] = None"
  by (simp add: parseFunction_def string_of_byte_def ToUpper_byte_def utf8_def
      unicode_ToUpper_def allocated_def NewParser_def lookup_entity_def)

text \<open>
  Claim C10 as amended. The check compares the first byte of the function name, read as
  a code point, with its upper case: every method on a single-level pointer receiver to
  the identifier \<open>api\<close> whose name begins with an ASCII byte other than a lower-case
  letter a to z (an underscore, a digit, an upper-case letter) is treated as an endpoint
  handler, that is, handed to \<^verbatim>\<open>AddEndpoint\<close>.
\<close>

theorem exported_check_ascii:
  assumes "Recv fd = Some (StarExpr (Ident ''api'') # ts)" and "fdName fd = c # cs"
    and "(of_char c :: nat) < 128"
    and "\<not> (97 \<le> (of_char c :: nat) \<and> (of_char c :: nat) \<le> 122)"
  shows "parseFunction alloc fd p = AddEndpoint alloc (fdName fd) (fdDoc fd) p"
proof -
  from assms(4) have "ascii_upper c = c" by (simp add: ascii_upper_fixed)
  with assms(3) have "string_of_byte c = ToUpper_byte c"
    by (simp add: string_of_byte_ascii ToUpper_byte_ascii)
  with assms(1,2) show ?thesis by (rule parseFunction_handler)
qed

theorem exported_check_ascii_witness:
  "Recv \<lparr>Recv = Some [StarExpr (Ident ''api'')], fdName = ''_ping'', fdDoc = []\<rparr>
     = Some (StarExpr (Ident ''api'') # [])
   \<and> fdName \<lparr>Recv = Some [StarExpr (Ident ''api'')], fdName = ''_ping'', fdDoc = []\<rparr>
     = CHR ''_'' # ''ping''
   \<and> (of_char (CHR ''_'') :: nat) < 128
   \<and> \<not> (97 \<le> (of_char (CHR ''_'') :: nat) \<and> (of_char (CHR ''_'') :: nat) \<le> 122)
   \<and> parseFunction id \<lparr>Recv = Some [StarExpr (Ident ''api'')], fdName = ''_ping'', fdDoc = []\<rparr>
        allocated
      = AddEndpoint id ''_ping'' [] allocated
   \<and> (case AddEndpoint id ''_ping'' [] allocated of
         Inl e \<Rightarrow> False
       | Inr p' \<Rightarrow> Entities p' = [0] \<and> lookup_entity p' ''_ping'' = Some 0)"
proof -
  let ?fd = "\<lparr>Recv = Some [StarExpr (Ident ''api'')], fdName = ''_ping'', fdDoc = []\<rparr>"
  have a: "Recv ?fd = Some (StarExpr (Ident ''api'') # [])"
    and b: "fdName ?fd = CHR ''_'' # ''ping''"
    and c: "(of_char (CHR ''_'') :: nat) < 128"
    and d: "\<not> (97 \<le> (of_char (CHR ''_'') :: nat) \<and> (of_char (CHR ''_'') :: nat) \<le> 122)"
    by simp_all
  have e: "(case AddEndpoint id ''_ping'' [] allocated of
         Inl e \<Rightarrow> False
       | Inr p' \<Rightarrow> Entities p' = [0] \<and> lookup_entity p' ''_ping'' = Some 0)"
    by (simp add: AddEndpoint_def entity_defs allocated_def NewParser_def)
  show ?thesis
    using exported_check_ascii [OF a b c d, of id allocated] a b c d e by simp
qed

section \<open>The walk visits every declaration in document order\<close>

lemma parseType_nil_error: "parseType alloc st p = Inr (err, p') \<Longrightarrow> err = None"
  by (auto simp: parseType_def split: sum.splits if_splits)

lemma visit_descends: "visit alloc d p = Inr (b, p') \<Longrightarrow> b"
  by (auto simp: visit_def split: decl.splits sum.splits if_splits dest: parseType_nil_error)

lemma visit_all_append:
  "visit_all alloc (xs @ ys) p =
     (case visit_all alloc xs p of Inl e \<Rightarrow> Inl e | Inr p' \<Rightarrow> visit_all alloc ys p')"
  by (induction xs arbitrary: p) (auto split: sum.splits)

lemma Inspect_preorder:
  "Inspect (visit alloc) n p = visit_all alloc (preorder n) p"
  "InspectList (visit alloc) ns p = visit_all alloc (concat (map preorder ns)) p"
proof (induction "visit alloc" n p and "visit alloc" ns p rule: Inspect_InspectList.induct)
  case (1 d ns s)
  show ?case
  proof (cases "visit alloc d s")
    case (Inl e)
    then show ?thesis by simp
  next
    case (Inr r)
    obtain b s' where r: "r = (b, s')" by (cases r)
    with Inr have b using visit_descends by blast
    with Inr r 1 show ?thesis by simp
  qed
next
  case (2 s)
  show ?case by simp
next
  case (3 n ns s)
  then show ?case by (auto simp: visit_all_append split: sum.splits)
qed

lemma parseFunction_cases:
  "parseFunction alloc fd p =
     (if is_handler fd then AddEndpoint alloc (fdName fd) (fdDoc fd) p
      else if Recv fd = Some [] \<or> (\<exists>i ts. Recv fd = Some (StarExpr (Ident i) # ts) \<and> fdName fd = [])
           then Inl IndexOutOfRange else Inr p)"
  by (auto simp: parseFunction_def is_handler_def split: option.splits list.splits expr.splits)

lemma CreateWidget_description:
  "enhanceDescription ''CreateWidget creates a new widget.'' ''CreateWidget''
     = ''Creates a new widget.''"
proof -
  have "ascii_upper (CHR ''c'') = CHR ''C''"
    by (simp add: ascii_upper_def char_of_eq_iff)
  then show ?thesis by (simp add: enhanceDescription_def toUpper_ascii)
qed

lemma CreateWidget_handler: "is_handler CreateWidget"
  by (simp add: is_handler_def CreateWidget_def string_of_byte_ascii ToUpper_byte_ascii
      ascii_upper_def)

lemma parseFunction_CreateWidget:
  "parseFunction alloc CreateWidget p
     = AddEndpoint alloc ''CreateWidget'' ''CreateWidget creates a new widget.'' p"
  using CreateWidget_handler by (simp add: parseFunction_cases CreateWidget_def)

lemma Parse_visit_all:
  "Parse alloc generate file p =
     (case visit_all alloc (preorder file) p of
        Inl e \<Rightarrow> Inl e
      | Inr p' \<Rightarrow> Inr (generate p', p'))"
  by (simp add: Parse_def Inspect_preorder)

text \<open>
  Claim C7 says that a structural error on a type spec stops the traversal, skips the
  generation and reaches the caller of \<^verbatim>\<open>Parse\<close> as an error. For a Request-suffixed
  declaration that is not a struct the run panics at the type assertion: \<^verbatim>\<open>Parse\<close>
  returns nothing, neither an error nor the result of \<^verbatim>\<open>generate\<close>.
\<close>

theorem malformed_Request_counterexample:
  "Parse id Map.empty malformed_file allocated = Inl TypeAssertion
   \<and> Parse id Map.empty (Node OtherD [Node (TypeSpecD PingRequest) []]) NewParser
       = Inl TypeAssertion"
  by (simp add: Parse_def visit_def malformed_file_def parseType_def HasSuffix_def
      PingRequest_def parseFunction_CreateWidget AddEndpoint_def entity_defs
      allocated_def NewParser_def)

text \<open>
  Claim C7 as amended. When the walker meets a Request-suffixed type declaration whose
  type is not a struct, the run panics at that node: no later node is visited,
  \<^verbatim>\<open>generate\<close> is not called and \<^verbatim>\<open>Parse\<close> returns no error value. \<^verbatim>\<open>parseType\<close>
  returns a nil error whenever it returns, so no subtree is skipped: \<^verbatim>\<open>Parse\<close> visits
  the declarations in document order and, when none panics, returns what \<^verbatim>\<open>generate\<close>
  returns. A declaration that matches no rule (another node, a type with another name, a
  function that is not a handler) changes nothing and the walk goes on.
\<close>

theorem walker_panics_no_error:
  "(HasSuffix (tsName st) ''Request'' \<and> (\<forall>fs. tsType st \<noteq> StructType fs) \<longrightarrow>
      parseType alloc st p = Inl TypeAssertion
      \<and> (\<forall>ds1 ds2 p1. preorder tree = ds1 @ TypeSpecD st # ds2
                        \<and> visit_all alloc ds1 p = Inr p1
            \<longrightarrow> Parse alloc generate tree p = Inl TypeAssertion))
   \<and> (\<forall>err p'. parseType alloc st p = Inr (err, p') \<longrightarrow> err = None)
   \<and> Parse alloc generate tree p =
       (case visit_all alloc (preorder tree) p of
          Inl e \<Rightarrow> Inl e
        | Inr p' \<Rightarrow> Inr (generate p', p'))
   \<and> visit alloc OtherD p = Inr (True, p)
   \<and> (\<not> HasSuffix (tsName st) ''Request'' \<and> \<not> HasSuffix (tsName st) ''Response''
        \<longrightarrow> visit alloc (TypeSpecD st) p = Inr (True, p))
   \<and> (\<not> is_handler fd \<and> Recv fd \<noteq> Some [] \<and> fdName fd \<noteq> []
        \<longrightarrow> visit alloc (FuncDeclD fd) p = Inr (True, p))"
proof -
  have bad: "parseType alloc st q = Inl TypeAssertion"
    if "HasSuffix (tsName st) ''Request''" "\<forall>fs. tsType st \<noteq> StructType fs" for q
    using that by (cases "tsType st") (simp_all add: parseType_def)
  have stop: "Parse alloc generate tree p = Inl TypeAssertion"
    if "HasSuffix (tsName st) ''Request''" "\<forall>fs. tsType st \<noteq> StructType fs"
      "preorder tree = ds1 @ TypeSpecD st # ds2" "visit_all alloc ds1 p = Inr p1"
    for ds1 ds2 p1
    using that bad[OF that(1,2), of p1]
    by (simp add: Parse_visit_all visit_all_append visit_def)
  have other: "visit alloc (TypeSpecD st) p = Inr (True, p)"
    if "\<not> HasSuffix (tsName st) ''Request''" "\<not> HasSuffix (tsName st) ''Response''"
    using that by (simp add: visit_def parseType_def)
  have fn: "visit alloc (FuncDeclD fd) p = Inr (True, p)"
    if "\<not> is_handler fd" "Recv fd \<noteq> Some []" "fdName fd \<noteq> []"
    using that by (auto simp: visit_def parseFunction_cases)
  show ?thesis
    using bad stop other fn parseType_nil_error Parse_visit_all
    by (intro conjI impI allI) (blast, blast, blast, simp, simp add: visit_def, blast, blast)
qed

theorem walker_panics_no_error_witness:
  "HasSuffix (tsName PingRequest) ''Request''
   \<and> (\<forall>fs. tsType PingRequest \<noteq> StructType fs)
   \<and> preorder malformed_file
       = [OtherD, FuncDeclD CreateWidget] @ TypeSpecD PingRequest # [TypeSpecD CreateWidgetResponse]
   \<and> (\<exists>p1. visit_all id [OtherD, FuncDeclD CreateWidget] allocated = Inr p1)
   \<and> Parse id Map.empty malformed_file allocated = Inl TypeAssertion
   \<and> (\<exists>p'. parseType id PingResponse allocated = Inr (None, p'))
   \<and> \<not> HasSuffix (tsName Widget) ''Request'' \<and> \<not> HasSuffix (tsName Widget) ''Response''
   \<and> visit id (TypeSpecD Widget) allocated = Inr (True, allocated)
   \<and> \<not> is_handler helper \<and> Recv helper \<noteq> Some [] \<and> fdName helper \<noteq> []
   \<and> visit id (FuncDeclD helper) allocated = Inr (True, allocated)"
proof -
  have a: "HasSuffix (tsName PingRequest) ''Request''"
    and b: "\<forall>fs. tsType PingRequest \<noteq> StructType fs"
    by (simp_all add: PingRequest_def HasSuffix_def)
  have c: "preorder malformed_file
      = [OtherD, FuncDeclD CreateWidget] @ TypeSpecD PingRequest # [TypeSpecD CreateWidgetResponse]"
    by (simp add: malformed_file_def)
  have "\<exists>p1. visit_all id [OtherD, FuncDeclD CreateWidget] allocated = Inr p1"
    by (simp add: visit_def parseFunction_CreateWidget AddEndpoint_def entity_defs
        allocated_def NewParser_def)
  then obtain p1 where d: "visit_all id [OtherD, FuncDeclD CreateWidget] allocated = Inr p1" ..
  have e: "Parse id Map.empty malformed_file allocated = Inl TypeAssertion"
    using walker_panics_no_error
      [where st = PingRequest and tree = malformed_file and p = allocated and alloc = id
         and generate = Map.empty and fd = helper]
      a b c d
    by blast
  have "\<exists>p'. parseType id PingResponse allocated = Inr (None, p')"
    by (simp add: parseType_def HasSuffix_def PingResponse_def addResponseField_def
        buildResponse_def attachResponse_def entity_defs allocated_def NewParser_def)
  then obtain p' where f: "parseType id PingResponse allocated = Inr (None, p')" ..
  have g: "\<not> HasSuffix (tsName Widget) ''Request''" "\<not> HasSuffix (tsName Widget) ''Response''"
    by (simp_all add: Widget_def HasSuffix_def)
  have h: "\<not> is_handler helper" "Recv helper \<noteq> Some []" "fdName helper \<noteq> []"
    by (simp_all add: helper_def is_handler_def)
  have i: "visit id (TypeSpecD Widget) allocated = Inr (True, allocated)"
    "visit id (FuncDeclD helper) allocated = Inr (True, allocated)"
    using walker_panics_no_error
      [where st = Widget and tree = malformed_file and p = allocated and alloc = id
         and generate = Map.empty and fd = helper]
      g h
    by blast+
  show ?thesis using a b c d e f g h i by blast
qed

section \<open>Entities holds the handlers, in order\<close>

lemma keeps_refl: "keeps p p"
  by (simp add: keeps_def)

lemma keeps_trans: "keeps p q \<Longrightarrow> keeps q r \<Longrightarrow> keeps p r"
  by (simp add: keeps_def)

lemma ensure_entity_keeps: "ensure_entity alloc entity p = Inr p' \<Longrightarrow> keeps p p'"
  by (auto simp: ensure_entity_def keeps_def lookup_entity_def store_entity_def
      new_entity_def Let_def split: option.splits)

lemma appendParameter_keeps: "appendParameter alloc entity params p = Inr p' \<Longrightarrow> keeps p p'"
proof -
  assume a: "appendParameter alloc entity params p = Inr p'"
  then obtain p1 where e: "ensure_entity alloc entity p = Inr p1"
    by (auto simp: appendParameter_def split: sum.splits)
  with a have "keeps p1 p'"
    by (auto simp: appendParameter_def keeps_def lookup_entity_def split: option.splits)
  with ensure_entity_keeps[OF e] show ?thesis by (rule keeps_trans)
qed

lemma addParameter_keeps: "addParameter alloc entity fs p = Inr p' \<Longrightarrow> keeps p p'"
proof (induction fs arbitrary: p)
  case Nil
  then show ?case by (simp add: keeps_refl)
next
  case (Cons f fs)
  then obtain params p1 where "appendParameter alloc entity params p = Inr p1"
    and "addParameter alloc entity fs p1 = Inr p'"
    by (auto split: sum.splits)
  then show ?case using Cons.IH appendParameter_keeps keeps_trans by blast
qed

lemma attachResponse_keeps: "attachResponse entity r p = Inr p' \<Longrightarrow> keeps p p'"
  by (auto simp: attachResponse_def keeps_def lookup_entity_def split: option.splits if_splits)

lemma addResponseField_keeps: "addResponseField alloc entity x p = Inr p' \<Longrightarrow> keeps p p'"
proof -
  assume "addResponseField alloc entity x p = Inr p'"
  then obtain p1 r where "ensure_entity alloc entity p = Inr p1"
    and "attachResponse entity r p1 = Inr p'"
    by (auto simp: addResponseField_def split: sum.splits)
  then show ?thesis using ensure_entity_keeps attachResponse_keeps keeps_trans by blast
qed

lemma parseType_keeps: "parseType alloc st p = Inr (err, p') \<Longrightarrow> keeps p p'"
proof -
  assume a: "parseType alloc st p = Inr (err, p')"
  then obtain p1 where
    1: "(if HasSuffix (tsName st) ''Request''
         then (case tsType st of
                 StructType fs \<Rightarrow> addParameter alloc (Replace (tsName st) ''Request'') fs p
               | _ \<Rightarrow> Inl TypeAssertion)
         else Inr p) = Inr p1"
    and 2: "(if HasSuffix (tsName st) ''Response''
         then addResponseField alloc (Replace (tsName st) ''Response'') (tsType st) p1
         else Inr p1) = Inr p'"
    by (auto simp: parseType_def split: sum.splits)
  from 1 have "keeps p p1"
    by (auto simp: keeps_refl split: if_splits expr.splits dest: addParameter_keeps)
  moreover from 2 have "keeps p1 p'"
    by (auto simp: keeps_refl split: if_splits dest: addResponseField_keeps)
  ultimately show ?thesis by (rule keeps_trans)
qed

lemma AddEndpoint_appends:
  assumes "AddEndpoint alloc name description p = Inr p'"
  shows "\<exists>a. Entities p' = Entities p @ [a] \<and> lookup_entity p' name = Some a
     \<and> (\<forall>n b. lookup_entity p n = Some b \<longrightarrow> lookup_entity p' n = Some b)"
  using assms
  by (auto simp: AddEndpoint_def lookup_entity_def store_entity_def new_entity_def Let_def
      split: option.splits prod.splits sum.splits)

lemma visit_step:
  assumes "visit alloc d p = Inr (b, p')"
  shows "(\<forall>n a. lookup_entity p n = Some a \<longrightarrow> lookup_entity p' n = Some a)
     \<and> map Some (Entities p') = map Some (Entities p) @ map (lookup_entity p') (handler_names [d])
     \<and> (\<forall>n\<in>set (handler_names [d]). \<exists>a. lookup_entity p' n = Some a)"
proof (cases d)
  case (TypeSpecD st)
  with assms obtain err where "parseType alloc st p = Inr (err, p')"
    by (auto simp: visit_def split: sum.splits if_splits)
  from parseType_keeps[OF this] TypeSpecD show ?thesis by (simp add: keeps_def)
next
  case (FuncDeclD fd)
  with assms have pf: "parseFunction alloc fd p = Inr p'"
    by (auto simp: visit_def split: sum.splits)
  show ?thesis
  proof (cases "is_handler fd")
    case True
    with pf have "AddEndpoint alloc (fdName fd) (fdDoc fd) p = Inr p'"
      by (simp add: parseFunction_cases)
    from AddEndpoint_appends[OF this] True FuncDeclD show ?thesis by auto
  next
    case False
    with pf have "p' = p" by (auto simp: parseFunction_cases split: if_splits)
    with False FuncDeclD show ?thesis by simp
  qed
next
  case OtherD
  with assms show ?thesis by (simp add: visit_def)
qed

lemma handler_names_append: "handler_names (xs @ ys) = handler_names xs @ handler_names ys"
  by (induction xs rule: handler_names.induct) auto

lemma visit_all_Entities:
  "visit_all alloc ds p = Inr p' \<Longrightarrow>
     (\<forall>n a. lookup_entity p n = Some a \<longrightarrow> lookup_entity p' n = Some a)
     \<and> map Some (Entities p') = map Some (Entities p) @ map (lookup_entity p') (handler_names ds)"
proof (induction ds arbitrary: p)
  case Nil
  then show ?case by simp
next
  case (Cons d ds)
  then obtain b p1 where v: "visit alloc d p = Inr (b, p1)"
    and r: "visit_all alloc ds p1 = Inr p'"
    by (auto split: sum.splits)
  from visit_step[OF v] have
    m1: "\<forall>n a. lookup_entity p n = Some a \<longrightarrow> lookup_entity p1 n = Some a"
    and e1: "map Some (Entities p1) = map Some (Entities p) @ map (lookup_entity p1) (handler_names [d])"
    and h1: "\<forall>n\<in>set (handler_names [d]). \<exists>a. lookup_entity p1 n = Some a"
    by blast+
  from Cons.IH[OF r] have m2: "\<forall>n a. lookup_entity p1 n = Some a \<longrightarrow> lookup_entity p' n = Some a"
    and e2: "map Some (Entities p') = map Some (Entities p1) @ map (lookup_entity p') (handler_names ds)"
    by auto
  have "map (lookup_entity p1) (handler_names [d]) = map (lookup_entity p') (handler_names [d])"
  proof (rule map_cong[OF refl])
    fix n assume "n \<in> set (handler_names [d])"
    with h1 obtain a where "lookup_entity p1 n = Some a" by blast
    with m2 show "lookup_entity p1 n = lookup_entity p' n" by simp
  qed
  with e1 e2 have "map Some (Entities p') =
      map Some (Entities p) @ map (lookup_entity p') (handler_names [d] @ handler_names ds)"
    by simp
  moreover have "handler_names (d # ds) = handler_names [d] @ handler_names ds"
    using handler_names_append[of "[d]" ds] by simp
  ultimately have "map Some (Entities p') =
      map Some (Entities p) @ map (lookup_entity p') (handler_names (d # ds))"
    by (simp only:)
  with m1 m2 show ?case by simp
qed

lemma ensure_entity_ok:
  assumes "inj alloc" and "registry_ok alloc p" and "ensure_entity alloc entity p = Inr p'"
  shows "registry_ok alloc p'"
proof (cases "lookup_entity p entity")
  case (Some a)
  with assms show ?thesis by (simp add: ensure_entity_def)
next
  case None
  with assms(3) obtain m where m: "EntitiesByName p = Some m"
    and p': "p' = p\<lparr>heap := (heap p)(alloc (allocs p) \<mapsto> NewEntity entity),
                     allocs := Suc (allocs p),
                     EntitiesByName := Some (m(entity \<mapsto> alloc (allocs p)))\<rparr>"
    by (auto simp: ensure_entity_def store_entity_def new_entity_def Let_def
        split: option.splits)
  have l: "lookup_entity p' n = (if n = entity then Some (alloc (allocs p)) else lookup_entity p n)"
    for n using m p' by (simp add: lookup_entity_def)
  have a: "allocs p' = Suc (allocs p)" using p' by simp
  from assms(2) have b: "\<And>n a. lookup_entity p n = Some a \<Longrightarrow> \<exists>k<allocs p. a = alloc k"
    and i: "\<And>n m a. lookup_entity p n = Some a \<Longrightarrow> lookup_entity p m = Some a \<Longrightarrow> n = m"
    by (auto simp: registry_ok_def)
  have fresh: "lookup_entity p n \<noteq> Some (alloc (allocs p))" for n
  proof
    assume "lookup_entity p n = Some (alloc (allocs p))"
    from b[OF this] obtain k where "k < allocs p" "alloc (allocs p) = alloc k" by blast
    with assms(1) show False by (auto dest: injD)
  qed
  show ?thesis
    unfolding registry_ok_def
  proof (intro conjI allI impI)
    fix n a assume "lookup_entity p' n = Some a"
    then show "\<exists>k<allocs p'. a = alloc k"
      using b[of n a] by (auto simp: l a less_Suc_eq split: if_splits)
  next
    fix n k a assume "lookup_entity p' n = Some a \<and> lookup_entity p' k = Some a"
    then show "n = k"
      using i[of n a k] fresh by (auto simp: l split: if_splits)
  qed
qed

lemma registry_ok_heap:
  "registry_ok alloc p \<Longrightarrow> registry_ok alloc (p\<lparr>heap := h\<rparr>)"
  by (simp add: registry_ok_def lookup_entity_def)

lemma appendParameter_ok:
  assumes "inj alloc" and "registry_ok alloc p" and "appendParameter alloc entity params p = Inr p'"
  shows "registry_ok alloc p'"
proof -
  from assms(3) obtain p1 where e: "ensure_entity alloc entity p = Inr p1"
    by (auto simp: appendParameter_def split: sum.splits)
  with assms(3) obtain h where "p' = p1\<lparr>heap := h\<rparr>"
    by (auto simp: appendParameter_def split: option.splits)
  with ensure_entity_ok[OF assms(1,2) e] show ?thesis by (simp add: registry_ok_heap)
qed

lemma addParameter_ok:
  "inj alloc \<Longrightarrow> registry_ok alloc p \<Longrightarrow> addParameter alloc entity fs p = Inr p'
     \<Longrightarrow> registry_ok alloc p'"
proof (induction fs arbitrary: p)
  case Nil
  then show ?case by simp
next
  case (Cons f fs)
  from Cons.prems(3) obtain params p1 where "appendParameter alloc entity params p = Inr p1"
    and "addParameter alloc entity fs p1 = Inr p'"
    by (auto split: sum.splits)
  then show ?case using Cons.IH Cons.prems(1,2) appendParameter_ok by blast
qed

lemma attachResponse_ok:
  assumes "registry_ok alloc p" and "attachResponse entity r p = Inr p'"
  shows "registry_ok alloc p'"
proof -
  from assms(2) have "p' = p \<or> (\<exists>h. p' = p\<lparr>heap := h\<rparr>)"
    by (auto simp: attachResponse_def split: if_splits option.splits)
  with assms(1) show ?thesis by (auto simp: registry_ok_heap)
qed

lemma addResponseField_ok:
  assumes "inj alloc" and "registry_ok alloc p" and "addResponseField alloc entity x p = Inr p'"
  shows "registry_ok alloc p'"
proof -
  from assms(3) obtain p1 r where "ensure_entity alloc entity p = Inr p1"
    and "attachResponse entity r p1 = Inr p'"
    by (auto simp: addResponseField_def split: sum.splits)
  then show ?thesis using assms(1,2) ensure_entity_ok attachResponse_ok by blast
qed

lemma parseType_ok:
  assumes "inj alloc" and "registry_ok alloc p" and "parseType alloc st p = Inr (err, p')"
  shows "registry_ok alloc p'"
proof -
  from assms(3) obtain p1 where
    1: "(if HasSuffix (tsName st) ''Request''
         then (case tsType st of
                 StructType fs \<Rightarrow> addParameter alloc (Replace (tsName st) ''Request'') fs p
               | _ \<Rightarrow> Inl TypeAssertion)
         else Inr p) = Inr p1"
    and 2: "(if HasSuffix (tsName st) ''Response''
         then addResponseField alloc (Replace (tsName st) ''Response'') (tsType st) p1
         else Inr p1) = Inr p'"
    by (auto simp: parseType_def split: sum.splits)
  from 1 assms(1,2) have "registry_ok alloc p1"
    by (auto split: if_splits expr.splits dest: addParameter_ok)
  with 2 assms(1) show ?thesis
    by (auto split: if_splits dest: addResponseField_ok)
qed

lemma AddEndpoint_ok:
  assumes "inj alloc" and "registry_ok alloc p" and "AddEndpoint alloc name description p = Inr p'"
  shows "registry_ok alloc p'"
proof (cases "lookup_entity p name")
  case (Some a)
  with assms(3) obtain m where m: "EntitiesByName p = Some m" "m name = Some a"
    and r: "EntitiesByName p' = Some (m(name \<mapsto> a))" and al: "allocs p' = allocs p"
    by (auto simp: AddEndpoint_def store_entity_def lookup_entity_def split: option.splits)
  from m have "m(name \<mapsto> a) = m" by (simp add: map_upd_triv)
  with r m have "lookup_entity p' n = lookup_entity p n" for n
    by (simp add: lookup_entity_def)
  with assms(2) al show ?thesis by (simp add: registry_ok_def)
next
  case None
  with assms(3) obtain m where m: "EntitiesByName p = Some m"
    and r: "EntitiesByName p' = Some (m(name \<mapsto> alloc (allocs p)))"
    and al: "allocs p' = Suc (allocs p)"
    by (auto simp: AddEndpoint_def store_entity_def new_entity_def lookup_entity_def Let_def
        split: option.splits)
  define q where "q = p\<lparr>heap := (heap p)(alloc (allocs p) \<mapsto> NewEntity name),
      allocs := Suc (allocs p), EntitiesByName := Some (m(name \<mapsto> alloc (allocs p)))\<rparr>"
  have "ensure_entity alloc name p = Inr q"
    using None m by (simp add: q_def ensure_entity_def store_entity_def new_entity_def Let_def)
  with assms(1,2) have "registry_ok alloc q" by (rule ensure_entity_ok)
  moreover have "lookup_entity p' n = lookup_entity q n" for n
    using r by (simp add: q_def lookup_entity_def)
  moreover have "allocs p' = allocs q" using al by (simp add: q_def)
  ultimately show ?thesis by (simp add: registry_ok_def)
qed

lemma visit_ok:
  assumes "inj alloc" and "registry_ok alloc p" and "visit alloc d p = Inr (b, p')"
  shows "registry_ok alloc p'"
proof (cases d)
  case (TypeSpecD st)
  with assms(3) obtain err where "parseType alloc st p = Inr (err, p')"
    by (auto simp: visit_def split: sum.splits if_splits)
  with assms(1,2) show ?thesis by (rule parseType_ok)
next
  case (FuncDeclD fd)
  with assms(3) have "parseFunction alloc fd p = Inr p'"
    by (auto simp: visit_def split: sum.splits)
  then have "p' = p \<or> AddEndpoint alloc (fdName fd) (fdDoc fd) p = Inr p'"
    by (auto simp: parseFunction_cases split: if_splits)
  with assms(1,2) show ?thesis using AddEndpoint_ok by blast
next
  case OtherD
  with assms show ?thesis by (simp add: visit_def)
qed

lemma visit_all_ok:
  "inj alloc \<Longrightarrow> registry_ok alloc p \<Longrightarrow> visit_all alloc ds p = Inr p'
     \<Longrightarrow> registry_ok alloc p'"
proof (induction ds arbitrary: p)
  case Nil
  then show ?case by simp
next
  case (Cons d ds)
  from Cons.prems(3) obtain b p1 where "visit alloc d p = Inr (b, p1)"
    and "visit_all alloc ds p1 = Inr p'"
    by (auto split: sum.splits)
  then show ?case using Cons.IH Cons.prems(1,2) visit_ok by blast
qed

lemma Parse_twice_file: "Parse id Map.empty twice_file allocated = Inr (None, twice_result)"
  by (simp add: Parse_def visit_def twice_file_def parseType_def HasSuffix_def PingResponse_def
      addResponseField_def buildResponse_def attachResponse_def parseFunction_CreateWidget
      AddEndpoint_def CreateWidget_description entity_defs allocated_def NewParser_def
      twice_result_def)

text \<open>
  Claim C9. When \<^verbatim>\<open>Parse\<close> returns, \<^verbatim>\<open>Entities\<close> is what it was before followed by one
  entry for each handler method met, in document order, each entry being the entity
  registered under the handler's name: nothing else appends. So a handler declared twice
  puts the same entity in twice, and an entity that only Request or Response
  declarations refer to (its name is no handler's, and it was not in \<^verbatim>\<open>Entities\<close>
  before) is not in \<^verbatim>\<open>Entities\<close>.
\<close>

theorem Entities_only_handlers:
  assumes "Parse alloc generate file p = Inr (r, p')"
  shows "map Some (Entities p') =
           map Some (Entities p) @ map (lookup_entity p') (handler_names (preorder file))
     \<and> (inj alloc \<and> registry_ok alloc p \<longrightarrow>
          (\<forall>m a. lookup_entity p' m = Some a \<and> m \<notin> set (handler_names (preorder file))
                  \<and> a \<notin> set (Entities p)
             \<longrightarrow> a \<notin> set (Entities p')))"
proof -
  from assms have v: "visit_all alloc (preorder file) p = Inr p'"
    by (auto simp: Parse_visit_all split: sum.splits)
  from visit_all_Entities[OF v] have e: "map Some (Entities p') =
      map Some (Entities p) @ map (lookup_entity p') (handler_names (preorder file))"
    by blast
  have "a \<notin> set (Entities p')"
    if ok: "inj alloc" "registry_ok alloc p" and l: "lookup_entity p' m = Some a"
      and m: "m \<notin> set (handler_names (preorder file))" and a: "a \<notin> set (Entities p)" for m a
  proof
    assume "a \<in> set (Entities p')"
    then have "Some a \<in> set (map Some (Entities p'))" by simp
    with e a obtain n where n: "n \<in> set (handler_names (preorder file))"
      and "lookup_entity p' n = Some a"
      by auto
    moreover from visit_all_ok[OF ok v] have
      "\<And>n m a. lookup_entity p' n = Some a \<Longrightarrow> lookup_entity p' m = Some a \<Longrightarrow> n = m"
      by (auto simp: registry_ok_def)
    ultimately have "n = m" using l by blast
    with n m show False by simp
  qed
  with e show ?thesis by blast
qed

theorem Entities_only_handlers_witness:
  "Parse id Map.empty twice_file allocated = Inr (None, twice_result)
   \<and> handler_names (preorder twice_file) = [''CreateWidget'', ''CreateWidget'']
   \<and> inj (id :: nat \<Rightarrow> addr) \<and> registry_ok id allocated
   \<and> lookup_entity twice_result ''Ping'' = Some 0
   \<and> 0 \<notin> set (Entities allocated)
   \<and> map Some (Entities twice_result) =
        map Some (Entities allocated)
        @ map (lookup_entity twice_result) (handler_names (preorder twice_file))
   \<and> 0 \<notin> set (Entities twice_result)
   \<and> Entities twice_result = [1, 1]"
proof -
  have "fdName CreateWidget = ''CreateWidget''"
    by (simp add: CreateWidget_def)
  then have h: "handler_names (preorder twice_file) = [''CreateWidget'', ''CreateWidget'']"
    using CreateWidget_handler by (simp add: twice_file_def)
  have ok: "registry_ok id allocated"
    by (simp add: registry_ok_def lookup_entity_def allocated_def NewParser_def)
  have l: "lookup_entity twice_result ''Ping'' = Some 0"
    by (simp add: lookup_entity_def twice_result_def)
  have e0: "0 \<notin> set (Entities allocated)"
    by (simp add: allocated_def NewParser_def)
  have n: "''Ping'' \<notin> set (handler_names (preorder twice_file))"
    by (simp add: h)
  from Entities_only_handlers [OF Parse_twice_file] ok l n e0
  have "map Some (Entities twice_result) =
        map Some (Entities allocated)
        @ map (lookup_entity twice_result) (handler_names (preorder twice_file))"
    and "0 \<notin> set (Entities twice_result)"
    by (blast, metis inj_on_id)
  moreover have "Entities twice_result = [1, 1]" by (simp add: twice_result_def)
  ultimately show ?thesis using Parse_twice_file h ok l e0 by simp
qed

section \<open>The entity model does not depend on the addresses\<close>


lemma renamed_heap:
  "renamed alloc c p \<Longrightarrow> lookup_entity c n = Some a \<Longrightarrow> heap p (alloc a) = heap c a"
  by (auto simp: renamed_def)




















end
